theory Spec2Isabelle
  imports Main
begin

section \<open>Python strings\<close>

text \<open>
  The compiler \<^verbatim>\<open>ams_compiler.py\<close> works on Python strings. A string is modelled as a
  \<^typ>\<open>string\<close>, one \<^typ>\<open>char\<close> per character, so the model covers the texts whose
  code points are below 256. \<open>isspace\<close> is Python's \<^verbatim>\<open>str.isspace\<close> on that range
  (code points 9 to 13, 28 to 32, 133 and 160), \<open>strip\<close> is \<^verbatim>\<open>str.strip()\<close> and
  \<open>startswith\<close> is \<^verbatim>\<open>str.startswith\<close>.
\<close>

definition isspace :: "char \<Rightarrow> bool" where
  "isspace c =
     (let n = (of_char c :: nat)
      in (9 \<le> n \<and> n \<le> 13) \<or> (28 \<le> n \<and> n \<le> 32) \<or> n = 133 \<or> n = 160)"

definition strip :: "string \<Rightarrow> string" where
  "strip s = rev (dropWhile isspace (rev (dropWhile isspace s)))"

fun startswith :: "string \<Rightarrow> string \<Rightarrow> bool" where
  "startswith s [] = True"
| "startswith [] (p # ps) = False"
| "startswith (c # cs) (p # ps) = (c = p \<and> startswith cs ps)"

section \<open>Indentation\<close>

text \<open>
  \<^verbatim>\<open>__count_indents__\<close>: the \<^verbatim>\<open>for\<close> loop over the characters, which counts the
  characters found in \<^verbatim>\<open>indent_chars\<close> and leaves at the first other one.
\<close>

definition indent_chars :: "char list" where
  "indent_chars = [CHR 0x09, CHR '' '']"

fun count_indents_loop :: "string \<Rightarrow> nat \<Rightarrow> nat" where
  "count_indents_loop [] indents = indents"
| "count_indents_loop (c # cs) indents =
     (if c \<in> set indent_chars then count_indents_loop cs (indents + 1) else indents)"

definition count_indents :: "string \<Rightarrow> nat" where
  "count_indents s = count_indents_loop s 0"

section \<open>Tree elements\<close>

text \<open>
  The classes \<^verbatim>\<open>marker\<close> and \<^verbatim>\<open>node\<close>. A marker holds its string only; a node
  holds its string and the list \<^verbatim>\<open>children\<close>. \<^verbatim>\<open>__build_element__\<close> may return
  \<^verbatim>\<open>None\<close> in place of an element, and \<^verbatim>\<open>node.add_child\<close> appends whatever it is
  given, so a child is an \<open>element option\<close>. Reading an index out of range raises
  \<^verbatim>\<open>IndexError\<close>; calling \<^verbatim>\<open>compile\<close> on \<^verbatim>\<open>None\<close> raises
  \<^verbatim>\<open>AttributeError\<close>.

  \<open>add_child\<close> returns the updated element together with the warnings it issued:
  \<^verbatim>\<open>marker.add_child\<close> only calls \<^verbatim>\<open>warnings.warn\<close> and keeps nothing,
  \<^verbatim>\<open>node.add_child\<close> appends the child. Under Python's default warning filter
  \<^verbatim>\<open>warnings.warn\<close> reports the warning and returns, so a warning is an entry of a log
  and not an error. (The branch of \<^verbatim>\<open>node.add_child\<close> that wraps
  a \<^verbatim>\<open>str\<close> argument is never taken by the builder, which passes elements or \<^verbatim>\<open>None\<close>.)
\<close>

datatype error = IndexError | AttributeError

datatype element = Marker string | Node string "element option list"

fun add_child :: "element \<Rightarrow> element option \<Rightarrow> element \<times> string list" where
  "add_child (Marker s) child = (Marker s, [''Cannot add child to comment.''])"
| "add_child (Node s children) child = (Node s (children @ [child]), [])"

section \<open>Tree builder\<close>

text \<open>
  \<^verbatim>\<open>__build_element__(file, line)\<close>. \<open>new_element\<close> is the choice between
  \<^verbatim>\<open>marker(command.strip())\<close> and \<^verbatim>\<open>node(command.strip())\<close>; \<open>build_children\<close> is
  the \<^verbatim>\<open>while next_line != len(file)\<close> loop, whose state is the element under
  construction, the cursor \<^verbatim>\<open>next_line\<close> and the warnings issued so far. Both functions
  return the warnings they issued. The \<^verbatim>\<open>debug\<close> flag only prints and is left out.
\<close>

definition new_element :: "string \<Rightarrow> element" where
  "new_element command =
     (if startswith (strip command) ''#'' then Marker (strip command)
      else Node (strip command) [])"

function build_element :: "string list \<Rightarrow> nat \<Rightarrow> error + (element option \<times> nat \<times> string list)"
  and build_children ::
    "string list \<Rightarrow> nat \<Rightarrow> element \<Rightarrow> nat \<Rightarrow> string list \<Rightarrow> error + (element \<times> nat \<times> string list)"
where
  "build_element file line =
     (if line < length file then
        (let command = file ! line in
         if length (strip command) = 0 then Inr (None, line, [])
         else
           (let indent = count_indents command;
                current_element = new_element command
            in case build_children file indent current_element (line + 1) [] of
                 Inl e \<Rightarrow> Inl e
               | Inr (el, next_line, ws) \<Rightarrow> Inr (Some el, next_line, ws)))
      else Inl IndexError)"
| "build_children file indent current_element next_line ws =
     (if next_line = length file then Inr (current_element, next_line, ws)
      else if length file < next_line then Inl IndexError
      else
        (let next_command = file ! next_line in
         if length (strip next_command) = 0
         then build_children file indent current_element (next_line + 1) ws
         else
           (let next_indent = count_indents next_command in
            if next_indent > indent then
              (case build_element file next_line of
                 Inl e \<Rightarrow> Inl e
               | Inr (next_child, next_line', ws') \<Rightarrow>
                   (case add_child current_element next_child of
                      (current_element', w) \<Rightarrow>
                        build_children file indent current_element' next_line' (ws @ ws' @ w)))
            else Inr (current_element, next_line, ws))))"
  by pat_completeness auto

text \<open>
  The loop continues from the index returned by the recursive call, so termination needs
  that index to lie beyond the line the call started from. This is proved on the domain
  of the two functions first.
\<close>

lemma build_advance_partial:
  "build_element_build_children_dom (Inl (file, line)) \<Longrightarrow>
     (\<forall>c n ws. build_element file line = Inr (c, n, ws) \<longrightarrow> strip (file ! line) \<noteq> [] \<longrightarrow> line < n)"
  "build_element_build_children_dom (Inr (file, indent, cur, next_line, ws0)) \<Longrightarrow>
     (\<forall>el n' ws1. build_children file indent cur next_line ws0 = Inr (el, n', ws1) \<longrightarrow> next_line \<le> n')"
proof (induct rule: build_element_build_children.pinduct)
  case (1 fl line)
  then show ?case
    by (fastforce simp: build_element.psimps Let_def split: if_splits sum.splits prod.splits)
next
  case (2 fl indent cur next_line ws)
  note ps = build_children.psimps [OF "2.hyps"(1)]
  show ?case
  proof (intro allI impI)
    fix el n' ws1
    assume eq: "build_children fl indent cur next_line ws = Inr (el, n', ws1)"
    consider (stop) "next_line = length fl" | (beyond) "length fl < next_line"
      | (blank) "next_line < length fl" "strip (fl ! next_line) = []"
      | (deeper) "next_line < length fl" "strip (fl ! next_line) \<noteq> []"
          "indent < count_indents (fl ! next_line)"
      | (shallow) "next_line < length fl" "strip (fl ! next_line) \<noteq> []"
          "\<not> indent < count_indents (fl ! next_line)"
      by linarith
    then show "next_line \<le> n'"
    proof cases
      case stop
      with eq ps show ?thesis by simp
    next
      case beyond
      with eq ps show ?thesis by simp
    next
      case blank
      with eq ps have "build_children fl indent cur (next_line + 1) ws = Inr (el, n', ws1)"
        by simp
      with "2.hyps"(2) [OF _ _ refl] blank have "next_line + 1 \<le> n'" by simp
      then show ?thesis by simp
    next
      case deeper
      with eq ps obtain child nl wsc cur' w where
        be: "build_element fl next_line = Inr (child, nl, wsc)" and
        ac: "add_child cur child = (cur', w)" and
        bc: "build_children fl indent cur' nl (ws @ wsc @ w) = Inr (el, n', ws1)"
        by (auto simp: Let_def split: sum.splits prod.splits)
      from "2.hyps"(3) [OF _ _ refl _ refl] deeper be have "next_line < nl" by simp
      moreover from "2.hyps"(4) [OF _ _ refl _ refl _ be refl refl ac [symmetric]] deeper bc
      have "nl \<le> n'" by simp
      ultimately show ?thesis by simp
    next
      case shallow
      with eq ps show ?thesis by simp
    qed
  qed
qed

lemma build_total: "All build_element_build_children_dom"
proof (rule "build_element_build_children.termination" [where R = "measure (\<lambda>x. case x of
          Inl (file, line) \<Rightarrow> 2 * (length file - line) - 1
        | Inr (file, indent, cur, next_line, ws) \<Rightarrow> 2 * (length file - next_line))"], goal_cases)
  case 1
  then show ?case by simp
next
  case (2 fl line x xa xb)
  then show ?case by simp
next
  case (3 fl indent current_element next_line ws x)
  then show ?case by simp
next
  case (4 fl indent current_element next_line ws x xa)
  then show ?case by simp
next
  case (5 fl indent current_element next_line ws x xa b xb y xc ya xd yb)
  then have "next_line < xc"
    using build_advance_partial(1)[of fl next_line] by auto
  with 5 show ?case by simp
qed



termination build_element
  by (rule build_total)

declare build_element.simps [simp del] build_children.simps [simp del]

lemma build_element_advance:
  "build_element file line = Inr (c, n, ws) \<Longrightarrow> strip (file ! line) \<noteq> [] \<Longrightarrow> line < n"
  using build_advance_partial(1) [of "file" line] build_total by blast

lemma build_children_advance:
  "build_children file indent cur next_line ws0 = Inr (el, n, ws1) \<Longrightarrow> next_line \<le> n"
  using build_advance_partial(2) [of "file" indent cur next_line ws0] build_total by blast

text \<open>
  \<^verbatim>\<open>build_tree(file)\<close>: the \<^verbatim>\<open>while line < len(file)\<close> loop with the list
  \<^verbatim>\<open>tree_list\<close>, and the warnings issued.
\<close>

function build_tree_loop ::
  "string list \<Rightarrow> nat \<Rightarrow> element option list \<Rightarrow> string list
     \<Rightarrow> error + (element option list \<times> string list)"
where
  "build_tree_loop file line tree_list ws =
     (if line < length file then
        (let command = file ! line in
         if length (strip command) = 0 then build_tree_loop file (line + 1) tree_list ws
         else
           (case build_element file line of
              Inl e \<Rightarrow> Inl e
            | Inr (next_tree, line', ws') \<Rightarrow>
                build_tree_loop file line' (tree_list @ [next_tree]) (ws @ ws')))
      else Inr (tree_list, ws))"
  by pat_completeness auto

termination build_tree_loop
proof (relation "measure (\<lambda>(file, line, tree_list, ws). length file - line)", goal_cases)
  case 1
  then show ?case by simp
next
  case (2 fl line tree_list ws x)
  then show ?case by simp
next
  case (3 fl line tree_list ws x b xa y xb ya)
  then have "line < xb"
    using build_element_advance [of fl line xa xb ya] by simp
  with 3 show ?case by simp
qed

declare build_tree_loop.simps [simp del]

definition build_tree :: "string list \<Rightarrow> error + (element option list \<times> string list)" where
  "build_tree file = build_tree_loop file 0 [] []"

section \<open>Tree compiler\<close>

text \<open>
  \<^verbatim>\<open>marker.compile\<close> and \<^verbatim>\<open>node.compile\<close> are the two equations of \<open>compile\<close>;
  \<open>compile_children\<close> is the loop \<^verbatim>\<open>for child in self.children\<close> with the list
  \<^verbatim>\<open>next_list\<close>. \<^verbatim>\<open>compile_tree_list\<close> runs two loops: \<open>compile_roots\<close> collects
  \<^verbatim>\<open>compiled_list\<close>, \<open>join_lines\<close> appends each element and a newline to
  \<^verbatim>\<open>compiled_string\<close>.
\<close>

fun compile :: "element \<Rightarrow> string \<Rightarrow> error + string list"
  and compile_children :: "element option list \<Rightarrow> string \<Rightarrow> string list \<Rightarrow> error + string list"
where
  "compile (Marker s) parent = Inr [s]"
| "compile (Node s children) parent =
     (let next_str = parent @ s @ '' '' in
      if length children > 0 then compile_children children next_str []
      else Inr [next_str])"
| "compile_children [] next_str next_list = Inr next_list"
| "compile_children (None # rest) next_str next_list = Inl AttributeError"
| "compile_children (Some child # rest) next_str next_list =
     (case compile child next_str of
        Inl e \<Rightarrow> Inl e
      | Inr l \<Rightarrow> compile_children rest next_str (next_list @ l))"

fun compile_roots :: "element option list \<Rightarrow> string list \<Rightarrow> error + string list" where
  "compile_roots [] compiled_list = Inr compiled_list"
| "compile_roots (None # rest) compiled_list = Inl AttributeError"
| "compile_roots (Some tree # rest) compiled_list =
     (case compile tree [] of
        Inl e \<Rightarrow> Inl e
      | Inr l \<Rightarrow> compile_roots rest (compiled_list @ l))"

fun join_lines :: "string list \<Rightarrow> string \<Rightarrow> string" where
  "join_lines [] compiled_string = compiled_string"
| "join_lines (element # rest) compiled_string =
     join_lines rest (compiled_string @ element @ [CHR 0x0A])"

definition compile_tree_list :: "element option list \<Rightarrow> error + string" where
  "compile_tree_list tree_list =
     (case compile_roots tree_list [] of
        Inl e \<Rightarrow> Inl e
      | Inr compiled_list \<Rightarrow> Inr (join_lines compiled_list []))"


text \<open>
  The two calls at the heart of \<^verbatim>\<open>compile_file\<close>, between reading the input and
  writing the output: \<^verbatim>\<open>tree_list = build_tree(in_text)\<close> and
  \<^verbatim>\<open>out_text = compile_tree_list(tree_list)\<close>.
\<close>

definition compile_lines :: "string list \<Rightarrow> error + string" where
  "compile_lines in_text =
     (case build_tree in_text of
        Inl e \<Rightarrow> Inl e
      | Inr (tree_list, ws) \<Rightarrow> compile_tree_list tree_list)"

section \<open>Properties of trees\<close>

text \<open>
  An element is proper when no \<^verbatim>\<open>None\<close> stands in place of a child anywhere in it.
\<close>

fun proper_element :: "element \<Rightarrow> bool"
  and proper_children :: "element option list \<Rightarrow> bool"
where
  "proper_element (Marker s) = True"
| "proper_element (Node s children) = proper_children children"
| "proper_children [] = True"
| "proper_children (None # rest) = False"
| "proper_children (Some child # rest) = (proper_element child \<and> proper_children rest)"

text \<open>
  The number of markers and of nodes without children in an element, and in a list of
  elements.
\<close>

fun leaf_count :: "element \<Rightarrow> nat"
  and leaf_count_list :: "element option list \<Rightarrow> nat"
where
  "leaf_count (Marker s) = 1"
| "leaf_count (Node s children) = (if children = [] then 1 else leaf_count_list children)"
| "leaf_count_list [] = 0"
| "leaf_count_list (None # rest) = leaf_count_list rest"
| "leaf_count_list (Some child # rest) = leaf_count child + leaf_count_list rest"

text \<open>
  An element has visible texts when no string in it is blank, that is, empty after
  stripping.
\<close>

fun visible_element :: "element \<Rightarrow> bool"
  and visible_children :: "element option list \<Rightarrow> bool"
where
  "visible_element (Marker s) = (strip s \<noteq> [])"
| "visible_element (Node s children) = (strip s \<noteq> [] \<and> visible_children children)"
| "visible_children [] = True"
| "visible_children (None # rest) = visible_children rest"
| "visible_children (Some child # rest) = (visible_element child \<and> visible_children rest)"

section \<open>Facts about the builder and the compiler\<close>

subsection \<open>Unfolding and induction\<close>

text \<open>
  The equations of the two builder functions, one per branch, and an induction rule
  over the calls made on a fixed file.
\<close>

lemma build_element_simps:
  "\<not> line < length file \<Longrightarrow> build_element file line = Inl IndexError"
  "line < length file \<Longrightarrow> strip (file ! line) = [] \<Longrightarrow> build_element file line = Inr (None, line, [])"
  "line < length file \<Longrightarrow> strip (file ! line) \<noteq> [] \<Longrightarrow>
     build_element file line =
       (case build_children file (count_indents (file ! line)) (new_element (file ! line)) (Suc line) [] of
          Inl e \<Rightarrow> Inl e
        | Inr (el, next_line, ws) \<Rightarrow> Inr (Some el, next_line, ws))"
  by (subst build_element.simps, simp add: Let_def)+

lemma build_children_simps:
  "next_line = length file \<Longrightarrow>
     build_children file indent cur next_line ws = Inr (cur, next_line, ws)"
  "length file < next_line \<Longrightarrow> build_children file indent cur next_line ws = Inl IndexError"
  "next_line < length file \<Longrightarrow> strip (file ! next_line) = [] \<Longrightarrow>
     build_children file indent cur next_line ws = build_children file indent cur (Suc next_line) ws"
  "next_line < length file \<Longrightarrow> strip (file ! next_line) \<noteq> [] \<Longrightarrow>
     \<not> indent < count_indents (file ! next_line) \<Longrightarrow>
     build_children file indent cur next_line ws = Inr (cur, next_line, ws)"
  "next_line < length file \<Longrightarrow> strip (file ! next_line) \<noteq> [] \<Longrightarrow>
     indent < count_indents (file ! next_line) \<Longrightarrow>
     build_children file indent cur next_line ws =
       (case build_element file next_line of
          Inl e \<Rightarrow> Inl e
        | Inr (next_child, next_line', ws') \<Rightarrow>
            (case add_child cur next_child of
               (cur', w) \<Rightarrow> build_children file indent cur' next_line' (ws @ ws' @ w)))"
  by (subst build_children.simps, simp add: Let_def)+

lemma build_induct [case_names element children]:
  assumes elem: "\<And>line.
      (line < length fl \<Longrightarrow> strip (fl ! line) \<noteq> [] \<Longrightarrow>
         Q (count_indents (fl ! line)) (new_element (fl ! line)) (Suc line) []) \<Longrightarrow> P line"
    and children: "\<And>indent cur next_line ws.
      (next_line < length fl \<Longrightarrow> strip (fl ! next_line) = [] \<Longrightarrow>
         Q indent cur (Suc next_line) ws) \<Longrightarrow>
      (next_line < length fl \<Longrightarrow> strip (fl ! next_line) \<noteq> [] \<Longrightarrow>
         indent < count_indents (fl ! next_line) \<Longrightarrow> P next_line) \<Longrightarrow>
      (\<And>child nl wsc cur' w.
         next_line < length fl \<Longrightarrow> strip (fl ! next_line) \<noteq> [] \<Longrightarrow>
         indent < count_indents (fl ! next_line) \<Longrightarrow>
         build_element fl next_line = Inr (child, nl, wsc) \<Longrightarrow>
         add_child cur child = (cur', w) \<Longrightarrow> Q indent cur' nl (ws @ wsc @ w)) \<Longrightarrow>
      Q indent cur next_line ws"
  shows "P line" and "Q indent cur next_line ws"
proof -
  have "(f0 = fl \<longrightarrow> P ln)" and "(g0 = fl \<longrightarrow> Q ind c nl w0)" for f0 ln g0 ind c nl w0
  proof (induct f0 ln and g0 ind c nl w0 rule: build_element_build_children.induct)
    case (1 f0 line)
    show ?case
    proof
      assume f: "f0 = fl"
      show "P line"
      proof (rule elem)
        assume "line < length fl" "strip (fl ! line) \<noteq> []"
        with 1 [OF _ refl _ refl refl] f
        show "Q (count_indents (fl ! line)) (new_element (fl ! line)) (Suc line) []"
          by simp
      qed
    qed
  next
    case (2 f0 indent cur next_line ws)
    show ?case
    proof
      assume f: "f0 = fl"
      show "Q indent cur next_line ws"
      proof (rule children)
        assume "next_line < length fl" "strip (fl ! next_line) = []"
        with 2(1) [OF _ _ refl] f show "Q indent cur (Suc next_line) ws" by simp
      next
        assume "next_line < length fl" "strip (fl ! next_line) \<noteq> []"
          "indent < count_indents (fl ! next_line)"
        with 2(2) [OF _ _ refl _ refl] f show "P next_line" by simp
      next
        fix child nl wsc cur' w
        assume a: "next_line < length fl" "strip (fl ! next_line) \<noteq> []"
          "indent < count_indents (fl ! next_line)"
          "build_element fl next_line = Inr (child, nl, wsc)"
          "add_child cur child = (cur', w)"
        have "f0 = fl \<longrightarrow> Q indent cur' nl (ws @ wsc @ w)"
          using a f
          by (intro 2(3) [OF _ _ refl _ refl, where b = "(child, nl, wsc)" and y = "(nl, wsc)"]) auto
        with f show "Q indent cur' nl (ws @ wsc @ w)" by simp
      qed
    qed
  qed
  then show "P line" and "Q indent cur next_line ws" by simp_all
qed


subsection \<open>The builder returns\<close>

text \<open>
  Started inside the file, neither function runs into an error, and the returned index
  stays within the file.
\<close>

lemma build_ok:
  "line < length file \<longrightarrow>
     (\<exists>c n ws. build_element file line = Inr (c, n, ws) \<and> n \<le> length file
        \<and> (c = None \<longleftrightarrow> strip (file ! line) = []))"
  "next_line \<le> length file \<longrightarrow>
     (\<exists>el n ws'. build_children file indent cur next_line ws = Inr (el, n, ws')
        \<and> n \<le> length file)"
proof (induct line and indent cur next_line ws rule: build_induct [where fl = "file"])
  case (element line)
  show ?case
  proof
    assume l: "line < length file"
    show "\<exists>c n ws. build_element file line = Inr (c, n, ws) \<and> n \<le> length file
        \<and> (c = None \<longleftrightarrow> strip (file ! line) = [])"
    proof (cases "strip (file ! line) = []")
      case True
      with l show ?thesis by (simp add: build_element_simps)
    next
      case False
      with element l obtain el n ws where
        "build_children file (count_indents (file ! line)) (new_element (file ! line)) (Suc line) []
           = Inr (el, n, ws)" "n \<le> length file"
        by auto
      with False l show ?thesis by (simp add: build_element_simps)
    qed
  qed
next
  case (children indent cur next_line ws)
  show ?case
  proof
    assume le: "next_line \<le> length file"
    consider (stop) "next_line = length file"
      | (blank) "next_line < length file" "strip (file ! next_line) = []"
      | (deeper) "next_line < length file" "strip (file ! next_line) \<noteq> []"
          "indent < count_indents (file ! next_line)"
      | (shallow) "next_line < length file" "strip (file ! next_line) \<noteq> []"
          "\<not> indent < count_indents (file ! next_line)"
      using le by linarith
    then show "\<exists>el n ws'. build_children file indent cur next_line ws = Inr (el, n, ws')
        \<and> n \<le> length file"
    proof cases
      case stop
      then show ?thesis by (simp add: build_children_simps)
    next
      case blank
      with children(1) show ?thesis by (simp add: build_children_simps)
    next
      case deeper
      with children(2) obtain child nl wsc where
        be: "build_element file next_line = Inr (child, nl, wsc)" and nl: "nl \<le> length file"
        by auto
      obtain cur' w where ac: "add_child cur child = (cur', w)" by (cases "add_child cur child")
      from children(3) [OF deeper be ac] nl be ac deeper show ?thesis
        by (simp add: build_children_simps)
    next
      case shallow
      then show ?thesis by (simp add: build_children_simps)
    qed
  qed
qed

subsection \<open>Markers stay markers\<close>

lemma build_children_marker:
  "build_children file indent (Marker s) next_line ws = Inr (el, n, ws') \<Longrightarrow> el = Marker s"
proof -
  have "0 \<le> (line :: nat)"
    and "\<forall>s el n ws'. cur = Marker s \<longrightarrow>
       build_children file indent cur next_line ws = Inr (el, n, ws') \<longrightarrow> el = Marker s"
    for line cur
  proof (induct line and indent cur next_line ws rule: build_induct [where fl = "file"])
    case (element line)
    show ?case by simp
  next
    case (children indent cur next_line ws)
    show ?case
    proof (intro allI impI)
      fix s el n ws'
      assume cur: "cur = Marker s"
        and eq: "build_children file indent cur next_line ws = Inr (el, n, ws')"
      consider (stop) "next_line = length file" | (beyond) "length file < next_line"
        | (blank) "next_line < length file" "strip (file ! next_line) = []"
        | (deeper) "next_line < length file" "strip (file ! next_line) \<noteq> []"
            "indent < count_indents (file ! next_line)"
        | (shallow) "next_line < length file" "strip (file ! next_line) \<noteq> []"
            "\<not> indent < count_indents (file ! next_line)"
        by linarith
      then show "el = Marker s"
      proof cases
        case stop
        with eq cur show ?thesis by (simp add: build_children_simps)
      next
        case beyond
        with eq show ?thesis by (simp add: build_children_simps)
      next
        case blank
        with eq children(1) cur show ?thesis by (simp add: build_children_simps)
      next
        case deeper
        with eq obtain child nl wsc where
          be: "build_element file next_line = Inr (child, nl, wsc)"
          by (auto simp: build_children_simps split: sum.splits)
        have ac: "add_child cur child = (Marker s, [''Cannot add child to comment.''])"
          using cur by simp
        from children(3) [OF deeper be ac] eq deeper be ac show ?thesis
          by (simp add: build_children_simps)
      next
        case shallow
        with eq cur show ?thesis by (simp add: build_children_simps)
      qed
    qed
  qed
  then show "build_children file indent (Marker s) next_line ws = Inr (el, n, ws') \<Longrightarrow> el = Marker s"
    by blast
qed

subsection \<open>Indentation and prefixes\<close>

lemma count_indents_loop_takeWhile:
  "count_indents_loop s k = k + length (takeWhile (\<lambda>c. c = CHR 0x09 \<or> c = CHR '' '') s)"
  by (induction s arbitrary: k) (auto simp: indent_chars_def)

lemma startswith_hash: "startswith s ''#'' \<longleftrightarrow> (\<exists>r. s = CHR ''#'' # r)"
  by (cases s) auto

subsection \<open>No missing children\<close>

lemma proper_children_append:
  "proper_children (xs @ ys) \<longleftrightarrow> proper_children xs \<and> proper_children ys"
proof (induction xs)
  case Nil
  show ?case by simp
next
  case (Cons x xs)
  then show ?case by (cases x) simp_all
qed

lemma proper_add_child:
  "proper_element cur \<Longrightarrow> proper_element e \<Longrightarrow> add_child cur (Some e) = (cur', w)
     \<Longrightarrow> proper_element cur'"
  by (cases cur) (auto simp: proper_children_append)

lemma proper_new_element: "proper_element (new_element command)"
  by (simp add: new_element_def)

lemma build_proper:
  "\<forall>c n ws. build_element file line = Inr (c, n, ws) \<longrightarrow> strip (file ! line) \<noteq> [] \<longrightarrow>
     (\<exists>e. c = Some e \<and> proper_element e)"
  "\<forall>el n ws'. proper_element cur \<longrightarrow>
     build_children file indent cur next_line ws = Inr (el, n, ws') \<longrightarrow> proper_element el"
proof (induct line and indent cur next_line ws rule: build_induct [where fl = "file"])
  case (element line)
  show ?case
  proof (intro allI impI)
    fix c n ws
    assume eq: "build_element file line = Inr (c, n, ws)" and nb: "strip (file ! line) \<noteq> []"
    have l: "line < length file"
      using eq by (cases "line < length file") (simp_all add: build_element_simps)
    from eq l nb obtain el where
      bc: "build_children file (count_indents (file ! line)) (new_element (file ! line)) (Suc line) []
             = Inr (el, n, ws)" and c: "c = Some el"
      by (auto simp: build_element_simps split: sum.splits)
    from element [OF l nb] bc have "proper_element el"
      using proper_new_element by blast
    with c show "\<exists>e. c = Some e \<and> proper_element e" by simp
  qed
next
  case (children indent cur next_line ws)
  show ?case
  proof (intro allI impI)
    fix el n ws'
    assume pc: "proper_element cur"
      and eq: "build_children file indent cur next_line ws = Inr (el, n, ws')"
    consider (stop) "next_line = length file" | (beyond) "length file < next_line"
      | (blank) "next_line < length file" "strip (file ! next_line) = []"
      | (deeper) "next_line < length file" "strip (file ! next_line) \<noteq> []"
          "indent < count_indents (file ! next_line)"
      | (shallow) "next_line < length file" "strip (file ! next_line) \<noteq> []"
          "\<not> indent < count_indents (file ! next_line)"
      by linarith
    then show "proper_element el"
    proof cases
      case stop
      with eq pc show ?thesis by (simp add: build_children_simps)
    next
      case beyond
      with eq show ?thesis by (simp add: build_children_simps)
    next
      case blank
      with eq children(1) pc show ?thesis by (simp add: build_children_simps)
    next
      case deeper
      with eq obtain child nl wsc where
        be: "build_element file next_line = Inr (child, nl, wsc)"
        by (auto simp: build_children_simps split: sum.splits)
      obtain cur' w where ac: "add_child cur child = (cur', w)" by (cases "add_child cur child")
      from children(2) [OF deeper] be deeper obtain e where
        e: "child = Some e" "proper_element e" by blast
      from proper_add_child [OF pc e(2)] ac e have "proper_element cur'" by simp
      with children(3) [OF deeper be ac] eq deeper be ac show ?thesis
        by (simp add: build_children_simps)
    next
      case shallow
      with eq pc show ?thesis by (simp add: build_children_simps)
    qed
  qed
qed

lemma build_tree_loop_ok:
  "line \<le> length file \<Longrightarrow> proper_children tree_list \<Longrightarrow>
     \<exists>trees ws'. build_tree_loop file line tree_list ws = Inr (trees, ws')
        \<and> proper_children trees"
proof (induction "file" line tree_list ws rule: build_tree_loop.induct)
  case (1 fl line tree_list ws)
  show ?case
  proof (cases "line < length fl")
    case False
    with 1(4) show ?thesis by (subst build_tree_loop.simps) simp
  next
    case l: True
    show ?thesis
    proof (cases "strip (fl ! line) = []")
      case True
      with l 1(1) [OF l refl] 1(4) show ?thesis
        by (subst build_tree_loop.simps) simp
    next
      case False
      from build_ok(1) [of line fl] l obtain c n ws' where
        be: "build_element fl line = Inr (c, n, ws')" and n: "n \<le> length fl" by auto
      from build_proper(1) [of fl line] be False obtain e where
        e: "c = Some e" "proper_element e" by blast
      have "proper_children (tree_list @ [c])"
        using 1(4) e by (simp add: proper_children_append)
      from 1(2) [OF l refl _ be refl refl n this] False
      have "\<exists>trees ws''. build_tree_loop fl n (tree_list @ [c]) (ws @ ws') = Inr (trees, ws'')
        \<and> proper_children trees" by simp
      with l False be show ?thesis
        by (subst build_tree_loop.simps) simp
    qed
  qed
qed

subsection \<open>The compiler returns\<close>

lemma compile_ok:
  "proper_element e \<Longrightarrow> \<exists>ls. compile e p = Inr ls \<and> length ls = leaf_count e"
  "proper_children cs \<Longrightarrow>
     \<exists>ls. compile_children cs p acc = Inr (acc @ ls) \<and> length ls = leaf_count_list cs"
proof (induction e p and cs p acc rule: compile_compile_children.induct)
  case (1 s parent)
  show ?case by simp
next
  case (2 s children parent)
  show ?case
  proof (cases "children = []")
    case True
    then show ?thesis by simp
  next
    case False
    with 2 show ?thesis by (simp add: Let_def)
  qed
next
  case (3 next_str next_list)
  show ?case by simp
next
  case (4 rest next_str next_list)
  then show ?case by simp
next
  case (5 child rest next_str next_list)
  from 5(3) have pc: "proper_element child" and pr: "proper_children rest" by simp_all
  from 5(1) [OF pc] obtain l where l: "compile child next_str = Inr l" "length l = leaf_count child"
    by blast
  from 5(2) [OF l(1) pr] obtain ls where
    ls: "compile_children rest next_str (next_list @ l) = Inr ((next_list @ l) @ ls)"
      "length ls = leaf_count_list rest" by blast
  show ?case
    by (rule exI [of _ "l @ ls"]) (simp add: l ls)
qed

lemma compile_roots_ok:
  "proper_children ts \<Longrightarrow>
     \<exists>ls. compile_roots ts acc = Inr (acc @ ls) \<and> length ls = leaf_count_list ts"
proof (induction ts acc rule: compile_roots.induct)
  case (1 compiled_list)
  show ?case by simp
next
  case (2 rest compiled_list)
  then show ?case by simp
next
  case (3 tree rest compiled_list)
  from 3(2) have pc: "proper_element tree" and pr: "proper_children rest" by simp_all
  from compile_ok(1) [OF pc] obtain l where l: "compile tree [] = Inr l" "length l = leaf_count tree"
    by blast
  from 3(1) [OF l(1) pr] obtain ls where
    ls: "compile_roots rest (compiled_list @ l) = Inr ((compiled_list @ l) @ ls)"
      "length ls = leaf_count_list rest" by blast
  show ?case
    by (rule exI [of _ "l @ ls"]) (simp add: l ls)
qed

lemma join_lines_concat:
  "join_lines ls acc = acc @ concat (map (\<lambda>l. l @ [CHR 0x0A]) ls)"
  by (induction ls arbitrary: acc) simp_all

lemma build_tree_ok:
  "\<exists>trees ws. build_tree file = Inr (trees, ws) \<and> proper_children trees"
  unfolding build_tree_def using build_tree_loop_ok [of 0 "file" "[]" "[]"] by simp

subsection \<open>Where children come from\<close>

lemma build_children_skip_blank:
  "x \<le> j \<Longrightarrow> j \<le> length file \<Longrightarrow> \<forall>k. x \<le> k \<and> k < j \<longrightarrow> strip (file ! k) = [] \<Longrightarrow>
     build_children file indent cur x ws = build_children file indent cur j ws"
proof (induction "j - x" arbitrary: x)
  case 0
  then show ?case by simp
next
  case (Suc d)
  then have "x < j" "x < length file" "strip (file ! x) = []" by auto
  moreover from Suc have "build_children file indent cur (Suc x) ws = build_children file indent cur j ws"
    by (intro Suc(1)) auto
  ultimately show ?case by (simp add: build_children_simps)
qed

lemma build_children_node:
  "\<forall>s cs el n ws'. cur = Node s cs \<longrightarrow>
     build_children file indent cur next_line ws = Inr (el, n, ws') \<longrightarrow>
     (\<exists>cs'. el = Node s (cs @ cs') \<and>
        (\<forall>c \<in> set cs'. \<exists>j nj wj. next_line \<le> j \<and> j < n \<and> strip (file ! j) \<noteq> []
            \<and> indent < count_indents (file ! j) \<and> build_element file j = Inr (c, nj, wj)))"
proof -
  have "0 \<le> (line :: nat)"
    and "\<forall>s cs el n ws'. cur = Node s cs \<longrightarrow>
     build_children file indent cur next_line ws = Inr (el, n, ws') \<longrightarrow>
     (\<exists>cs'. el = Node s (cs @ cs') \<and>
        (\<forall>c \<in> set cs'. \<exists>j nj wj. next_line \<le> j \<and> j < n \<and> strip (file ! j) \<noteq> []
            \<and> indent < count_indents (file ! j) \<and> build_element file j = Inr (c, nj, wj)))"
    for line
  proof (induct line and indent cur next_line ws rule: build_induct [where fl = "file"])
    case (element line)
    show ?case by simp
  next
    case (children indent cur next_line ws)
    show ?case
    proof (intro allI impI)
      fix s cs el n ws'
      assume cur: "cur = Node s cs"
        and eq: "build_children file indent cur next_line ws = Inr (el, n, ws')"
      let ?from = "\<lambda>x c. \<exists>j nj wj. x \<le> j \<and> j < n \<and> strip (file ! j) \<noteq> []
            \<and> indent < count_indents (file ! j) \<and> build_element file j = Inr (c, nj, wj)"
      consider (stop) "next_line = length file" | (beyond) "length file < next_line"
        | (blank) "next_line < length file" "strip (file ! next_line) = []"
        | (deeper) "next_line < length file" "strip (file ! next_line) \<noteq> []"
            "indent < count_indents (file ! next_line)"
        | (shallow) "next_line < length file" "strip (file ! next_line) \<noteq> []"
            "\<not> indent < count_indents (file ! next_line)"
        by linarith
      then show "\<exists>cs'. el = Node s (cs @ cs') \<and> (\<forall>c \<in> set cs'. ?from next_line c)"
      proof cases
        case stop
        with eq cur have "el = Node s (cs @ [])" by (simp add: build_children_simps)
        then show ?thesis by (intro exI [of _ "[]"]) simp
      next
        case beyond
        with eq show ?thesis by (simp add: build_children_simps)
      next
        case blank
        with eq have "build_children file indent cur (Suc next_line) ws = Inr (el, n, ws')"
          by (simp add: build_children_simps)
        with children(1) [OF blank] cur obtain cs' where
          cs': "el = Node s (cs @ cs')" "\<forall>c \<in> set cs'. ?from (Suc next_line) c" by blast
        from cs'(2) have "\<forall>c \<in> set cs'. ?from next_line c"
          by (meson Suc_leD)
        with cs'(1) show ?thesis by blast
      next
        case deeper
        with eq obtain child nl wsc where
          be: "build_element file next_line = Inr (child, nl, wsc)"
          by (auto simp: build_children_simps split: sum.splits)
        have ac: "add_child cur child = (Node s (cs @ [child]), [])"
          using cur by simp
        from eq deeper be ac have
          bc: "build_children file indent (Node s (cs @ [child])) nl (ws @ wsc @ []) = Inr (el, n, ws')"
          by (simp add: build_children_simps)
        with children(3) [OF deeper be ac] obtain cs' where
          cs': "el = Node s ((cs @ [child]) @ cs')" "\<forall>c \<in> set cs'. ?from nl c" by blast
        have adv: "next_line < nl" using build_element_advance [OF be deeper(2)] .
        have nln: "nl \<le> n" using build_children_advance [OF bc] .
        have "?from next_line child"
          using be deeper adv nln
          by (intro exI [of _ next_line] exI [of _ nl] exI [of _ wsc]) simp
        moreover from cs'(2) adv have "\<forall>c \<in> set cs'. ?from next_line c"
          by (meson less_imp_le_nat le_trans)
        ultimately have "\<forall>c \<in> set (child # cs'). ?from next_line c" by simp
        with cs'(1) show ?thesis by (intro exI [of _ "child # cs'"]) simp
      next
        case shallow
        with eq cur have "el = Node s (cs @ [])" by (simp add: build_children_simps)
        then show ?thesis by (intro exI [of _ "[]"]) simp
      qed
    qed
  qed
  then show ?thesis by blast
qed

lemma new_element_cases:
  "startswith (strip command) ''#'' \<Longrightarrow> new_element command = Marker (strip command)"
  "\<not> startswith (strip command) ''#'' \<Longrightarrow> new_element command = Node (strip command) []"
  by (simp_all add: new_element_def)

subsection \<open>Warnings are kept\<close>

text \<open>
  The warnings issued while an element is built are among the warnings of every call
  whose range of lines contains the line of that element.
\<close>

lemma build_children_warnings_mono:
  "build_children file indent cur next_line ws = Inr (el, n, ws') \<Longrightarrow> set ws \<subseteq> set ws'"
proof -
  have "0 \<le> (line :: nat)"
    and "\<forall>el n ws'. build_children file indent cur next_line ws = Inr (el, n, ws')
          \<longrightarrow> set ws \<subseteq> set ws'"
    for line
  proof (induct line and indent cur next_line ws rule: build_induct [where fl = "file"])
    case (element line)
    show ?case by simp
  next
    case (children indent cur next_line ws)
    show ?case
    proof (intro allI impI)
      fix el n ws'
      assume eq: "build_children file indent cur next_line ws = Inr (el, n, ws')"
      consider (stop) "next_line = length file" | (beyond) "length file < next_line"
        | (blank) "next_line < length file" "strip (file ! next_line) = []"
        | (deeper) "next_line < length file" "strip (file ! next_line) \<noteq> []"
            "indent < count_indents (file ! next_line)"
        | (shallow) "next_line < length file" "strip (file ! next_line) \<noteq> []"
            "\<not> indent < count_indents (file ! next_line)"
        by linarith
      then show "set ws \<subseteq> set ws'"
      proof cases
        case stop
        with eq show ?thesis by (simp add: build_children_simps)
      next
        case beyond
        with eq show ?thesis by (simp add: build_children_simps)
      next
        case blank
        with eq children(1) show ?thesis by (simp add: build_children_simps)
      next
        case deeper
        with eq obtain child nl wsc where
          be: "build_element file next_line = Inr (child, nl, wsc)"
          by (auto simp: build_children_simps split: sum.splits)
        obtain cur' w where ac: "add_child cur child = (cur', w)" by (cases "add_child cur child")
        from eq deeper be ac have
          "build_children file indent cur' nl (ws @ wsc @ w) = Inr (el, n, ws')"
          by (simp add: build_children_simps)
        with children(3) [OF deeper be ac] have "set (ws @ wsc @ w) \<subseteq> set ws'" by blast
        then show ?thesis by simp
      next
        case shallow
        with eq show ?thesis by (simp add: build_children_simps)
      qed
    qed
  qed
  then show "build_children file indent cur next_line ws = Inr (el, n, ws') \<Longrightarrow> set ws \<subseteq> set ws'"
    by blast
qed

lemma build_visits:
  "\<forall>c n ws. build_element file line = Inr (c, n, ws) \<longrightarrow> line \<le> i \<longrightarrow> i < n \<longrightarrow>
     strip (file ! i) \<noteq> [] \<longrightarrow> build_element file i = Inr (ci, ni, wi) \<longrightarrow> set wi \<subseteq> set ws"
  "\<forall>el n ws'. build_children file indent cur next_line ws = Inr (el, n, ws') \<longrightarrow>
     next_line \<le> i \<longrightarrow> i < n \<longrightarrow>
     strip (file ! i) \<noteq> [] \<longrightarrow> build_element file i = Inr (ci, ni, wi) \<longrightarrow> set wi \<subseteq> set ws'"
proof (induct line and indent cur next_line ws rule: build_induct [where fl = "file"])
  case (element line)
  show ?case
  proof (intro allI impI)
    fix c n ws
    assume eq: "build_element file line = Inr (c, n, ws)" and li: "line \<le> i" and "i < n"
      and nb: "strip (file ! i) \<noteq> []" and bi: "build_element file i = Inr (ci, ni, wi)"
    show "set wi \<subseteq> set ws"
    proof (cases "line = i")
      case True
      with eq bi show ?thesis by simp
    next
      case False
      with li have lt: "Suc line \<le> i" by simp
      have l: "line < length file"
        using eq by (cases "line < length file") (simp_all add: build_element_simps)
      have nbl: "strip (file ! line) \<noteq> []"
      proof
        assume "strip (file ! line) = []"
        with eq l have "n = line" by (simp add: build_element_simps)
        with \<open>i < n\<close> li show False by simp
      qed
      from eq l nbl obtain el where
        "build_children file (count_indents (file ! line)) (new_element (file ! line)) (Suc line) []
           = Inr (el, n, ws)"
        by (auto simp: build_element_simps split: sum.splits)
      with element [OF l nbl] lt \<open>i < n\<close> nb bi show ?thesis by blast
    qed
  qed
next
  case (children indent cur next_line ws)
  show ?case
  proof (intro allI impI)
    fix el n ws'
    assume eq: "build_children file indent cur next_line ws = Inr (el, n, ws')"
      and li: "next_line \<le> i" and "i < n"
      and nb: "strip (file ! i) \<noteq> []" and bi: "build_element file i = Inr (ci, ni, wi)"
    consider (stop) "next_line = length file" | (beyond) "length file < next_line"
      | (blank) "next_line < length file" "strip (file ! next_line) = []"
      | (deeper) "next_line < length file" "strip (file ! next_line) \<noteq> []"
          "indent < count_indents (file ! next_line)"
      | (shallow) "next_line < length file" "strip (file ! next_line) \<noteq> []"
          "\<not> indent < count_indents (file ! next_line)"
      by linarith
    then show "set wi \<subseteq> set ws'"
    proof cases
      case stop
      with eq li \<open>i < n\<close> show ?thesis by (simp add: build_children_simps)
    next
      case beyond
      with eq show ?thesis by (simp add: build_children_simps)
    next
      case blank
      with nb li have "Suc next_line \<le> i" by (cases "next_line = i") auto
      moreover from blank eq have "build_children file indent cur (Suc next_line) ws = Inr (el, n, ws')"
        by (simp add: build_children_simps)
      ultimately show ?thesis using children(1) [OF blank] \<open>i < n\<close> nb bi by blast
    next
      case deeper
      with eq obtain child nl wsc where
        be: "build_element file next_line = Inr (child, nl, wsc)"
        by (auto simp: build_children_simps split: sum.splits)
      obtain cur' w where ac: "add_child cur child = (cur', w)" by (cases "add_child cur child")
      from eq deeper be ac have
        bc: "build_children file indent cur' nl (ws @ wsc @ w) = Inr (el, n, ws')"
        by (simp add: build_children_simps)
      show ?thesis
      proof (cases "i < nl")
        case True
        with children(2) [OF deeper] be li nb bi have "set wi \<subseteq> set wsc" by blast
        moreover from build_children_warnings_mono [OF bc] have "set wsc \<subseteq> set ws'" by simp
        ultimately show ?thesis by blast
      next
        case False
        then have "nl \<le> i" by simp
        with children(3) [OF deeper be ac] bc \<open>i < n\<close> nb bi show ?thesis by blast
      qed
    next
      case shallow
      with eq li \<open>i < n\<close> show ?thesis by (simp add: build_children_simps)
    qed
  qed
qed

lemma build_tree_loop_visits:
  "build_tree_loop file line tree_list ws = Inr (trees, ws') \<Longrightarrow>
     set ws \<subseteq> set ws'
     \<and> (line \<le> i \<longrightarrow> i < length file \<longrightarrow> strip (file ! i) \<noteq> [] \<longrightarrow>
          build_element file i = Inr (ci, ni, wi) \<longrightarrow> set wi \<subseteq> set ws')"
proof (induction "file" line tree_list ws rule: build_tree_loop.induct)
  case (1 fl line tree_list ws)
  note eq = "1.prems"
  show ?case
  proof (cases "line < length fl")
    case False
    with eq show ?thesis by (subst (asm) build_tree_loop.simps) simp
  next
    case l: True
    show ?thesis
    proof (cases "strip (fl ! line) = []")
      case True
      with l eq have "build_tree_loop fl (line + 1) tree_list ws = Inr (trees, ws')"
        by (subst (asm) build_tree_loop.simps) simp
      from 1(1) [OF l refl _ this] True
      have ih: "set ws \<subseteq> set ws'" "line + 1 \<le> i \<longrightarrow> i < length fl \<longrightarrow> strip (fl ! i) \<noteq> [] \<longrightarrow>
          build_element fl i = Inr (ci, ni, wi) \<longrightarrow> set wi \<subseteq> set ws'" by simp_all
      have "line \<le> i \<Longrightarrow> strip (fl ! i) \<noteq> [] \<Longrightarrow> line + 1 \<le> i"
        using True by (cases "line = i") auto
      with ih show ?thesis by blast
    next
      case False
      from build_ok(1) [of line fl] l obtain c n wsc where
        be: "build_element fl line = Inr (c, n, wsc)" by auto
      with l False eq have
        bl: "build_tree_loop fl n (tree_list @ [c]) (ws @ wsc) = Inr (trees, ws')"
        by (subst (asm) build_tree_loop.simps) simp
      from 1(2) [OF l refl _ be refl refl bl] False
      have ih: "set (ws @ wsc) \<subseteq> set ws'" "n \<le> i \<longrightarrow> i < length fl \<longrightarrow> strip (fl ! i) \<noteq> [] \<longrightarrow>
          build_element fl i = Inr (ci, ni, wi) \<longrightarrow> set wi \<subseteq> set ws'" by simp_all
      have "set wi \<subseteq> set ws'"
        if "line \<le> i" "i < length fl" "strip (fl ! i) \<noteq> []" "build_element fl i = Inr (ci, ni, wi)"
      proof (cases "i < n")
        case True
        with build_visits(1) [of fl line i ci ni wi] be that have "set wi \<subseteq> set wsc" by blast
        with ih(1) show ?thesis by auto
      next
        case False
        with ih(2) that show ?thesis by simp
      qed
      with ih(1) show ?thesis by auto
    qed
  qed
qed

lemma compile_tree_list_ok:
  "proper_children trees \<Longrightarrow> \<exists>out. compile_tree_list trees = Inr out"
  using compile_roots_ok [of trees "[]"] by (auto simp: compile_tree_list_def)

subsection \<open>Inserting a blank line\<close>

text \<open>
  With a blank line inserted after the first \<open>length xs\<close> lines, every call behaves as
  before, with the indices from the place of insertion on shifted by one.
\<close>

lemma insert_blank_build:
  assumes b: "strip b = []"
  shows "build_element (xs @ b # ys) (if line < length xs then line else Suc line) =
      (case build_element (xs @ ys) line of
         Inl e \<Rightarrow> Inl e
       | Inr (c, n, ws) \<Rightarrow> Inr (c, if n < length xs then n else Suc n, ws))"
    and "build_children (xs @ b # ys) indent cur (if x < length xs then x else Suc x) ws0 =
      (case build_children (xs @ ys) indent cur x ws0 of
         Inl e \<Rightarrow> Inl e
       | Inr (el, n, ws) \<Rightarrow> Inr (el, if n < length xs then n else Suc n, ws))"
proof -
  define F where "F = xs @ ys"
  define G where "G = xs @ b # ys"
  define k where "k = length xs"
  define \<sigma> where "\<sigma> = (\<lambda>x. if x < k then x else Suc x)"
  define lift :: "error + (element option \<times> nat \<times> string list) \<Rightarrow> _" where
    "lift = (\<lambda>r. case r of Inl e \<Rightarrow> Inl e | Inr (c, n, ws) \<Rightarrow> Inr (c, \<sigma> n, ws))"
  define lift' :: "error + (element \<times> nat \<times> string list) \<Rightarrow> _" where
    "lift' = (\<lambda>r. case r of Inl e \<Rightarrow> Inl e | Inr (c, n, ws) \<Rightarrow> Inr (c, \<sigma> n, ws))"
  have len: "length G = Suc (length F)" by (simp add: F_def G_def)
  have kF: "k \<le> length F" by (simp add: F_def k_def)
  have nth: "G ! \<sigma> x = F ! x" if "x < length F" for x
    using that by (simp add: F_def G_def \<sigma>_def k_def nth_append Suc_diff_le)
  have Gk: "G ! k = b" by (simp add: G_def k_def)
  have lt: "\<sigma> x < length G \<longleftrightarrow> x < length F" for x
    using kF by (auto simp: \<sigma>_def len)
  have eq: "\<sigma> x = length G \<longleftrightarrow> x = length F" for x
    using kF by (auto simp: \<sigma>_def len)
  have step: "build_children G indent cur (Suc (\<sigma> x)) ws = build_children G indent cur (\<sigma> (Suc x)) ws"
    for indent cur x ws
  proof (cases "Suc x = k")
    case True
    then have "\<sigma> x = x" "\<sigma> (Suc x) = Suc k" by (simp_all add: \<sigma>_def)
    moreover have "build_children G indent cur k ws = build_children G indent cur (Suc k) ws"
      using kF Gk b by (simp add: build_children_simps len)
    ultimately show ?thesis using True by simp
  next
    case False
    then have "Suc (\<sigma> x) = \<sigma> (Suc x)" by (auto simp: \<sigma>_def)
    then show ?thesis by simp
  qed
  have "build_element G (\<sigma> line) = lift (build_element F line)"
    and "build_children G indent cur (\<sigma> x) ws0 = lift' (build_children F indent cur x ws0)"
  proof (induct line and indent cur x ws0 rule: build_induct [where fl = F])
    case (element line)
    show ?case
    proof (cases "line < length F")
      case False
      with lt [of line] show ?thesis by (simp add: build_element_simps lift_def)
    next
      case l: True
      show ?thesis
      proof (cases "strip (F ! line) = []")
        case True
        with l lt [of line] nth [OF l] show ?thesis by (simp add: build_element_simps lift_def)
      next
        case False
        from element [OF l False] step
        have "build_children G (count_indents (F ! line)) (new_element (F ! line)) (Suc (\<sigma> line)) []
          = lift' (build_children F (count_indents (F ! line)) (new_element (F ! line)) (Suc line) [])"
          by simp
        with l False lt [of line] nth [OF l] show ?thesis
          by (simp add: build_element_simps lift_def lift'_def split: sum.splits)
      qed
    qed
  next
    case (children indent cur x ws)
    consider (stop) "x = length F" | (beyond) "length F < x"
      | (blank) "x < length F" "strip (F ! x) = []"
      | (deeper) "x < length F" "strip (F ! x) \<noteq> []" "indent < count_indents (F ! x)"
      | (shallow) "x < length F" "strip (F ! x) \<noteq> []" "\<not> indent < count_indents (F ! x)"
      by linarith
    then show ?case
    proof cases
      case stop
      with eq [of x] show ?thesis by (simp add: build_children_simps lift'_def)
    next
      case beyond
      then have "length G < \<sigma> x" using kF by (auto simp: \<sigma>_def len)
      with beyond show ?thesis by (simp add: build_children_simps lift'_def)
    next
      case blank
      from children(1) [OF blank] step
      have "build_children G indent cur (Suc (\<sigma> x)) ws = lift' (build_children F indent cur (Suc x) ws)"
        by simp
      with blank lt [of x] nth [of x] show ?thesis by (simp add: build_children_simps)
    next
      case deeper
      from build_ok(1) [of x F] deeper obtain child nl wsc where
        be: "build_element F x = Inr (child, nl, wsc)" by auto
      obtain cur' w where ac: "add_child cur child = (cur', w)" by (cases "add_child cur child")
      from children(2) [OF deeper] be have be': "build_element G (\<sigma> x) = Inr (child, \<sigma> nl, wsc)"
        by (simp add: lift_def)
      from children(3) [OF deeper be ac] deeper be be' ac lt [of x] nth [of x] show ?thesis
        by (simp add: build_children_simps)
    next
      case shallow
      with lt [of x] nth [of x] show ?thesis by (simp add: build_children_simps lift'_def)
    qed
  qed
  then show "build_element (xs @ b # ys) (if line < length xs then line else Suc line) =
      (case build_element (xs @ ys) line of
         Inl e \<Rightarrow> Inl e
       | Inr (c, n, ws) \<Rightarrow> Inr (c, if n < length xs then n else Suc n, ws))"
    and "build_children (xs @ b # ys) indent cur (if x < length xs then x else Suc x) ws0 =
      (case build_children (xs @ ys) indent cur x ws0 of
         Inl e \<Rightarrow> Inl e
       | Inr (el, n, ws) \<Rightarrow> Inr (el, if n < length xs then n else Suc n, ws))"
    unfolding F_def G_def \<sigma>_def k_def lift_def lift'_def by simp_all
qed

lemma insert_blank_tree_loop:
  assumes b: "strip b = []"
  shows "build_tree_loop (xs @ b # ys) (if line < length xs then line else Suc line) tree_list ws =
      build_tree_loop (xs @ ys) line tree_list ws"
proof -
  define G where "G = xs @ b # ys"
  define k where "k = length xs"
  define \<sigma> where "\<sigma> = (\<lambda>x. if x < k then x else Suc x)"
  have "build_tree_loop G (\<sigma> line) tree_list ws = build_tree_loop F line tree_list ws"
    if "F = xs @ ys" for F
    using that
  proof (induction F line tree_list ws rule: build_tree_loop.induct)
    case (1 F line tree_list ws)
    note F = \<open>F = xs @ ys\<close>
    have len: "length G = Suc (length F)" by (simp add: F G_def)
    have kF: "k \<le> length F" by (simp add: F k_def)
    have nth: "G ! \<sigma> x = F ! x" if "x < length F" for x
      using that by (simp add: F G_def \<sigma>_def k_def nth_append Suc_diff_le)
    have Gk: "G ! k = b" by (simp add: G_def k_def)
    have lt: "\<sigma> x < length G \<longleftrightarrow> x < length F" for x
      using kF by (auto simp: \<sigma>_def len)
    have step: "build_tree_loop G (Suc (\<sigma> x)) acc w = build_tree_loop G (\<sigma> (Suc x)) acc w"
      for x acc w
    proof (cases "Suc x = k")
      case True
      then have "\<sigma> x = x" "\<sigma> (Suc x) = Suc k" by (simp_all add: \<sigma>_def)
      moreover have "build_tree_loop G k acc w = build_tree_loop G (Suc k) acc w"
        using kF Gk b by (subst build_tree_loop.simps) (simp add: len)
      ultimately show ?thesis using True by simp
    next
      case False
      then have "Suc (\<sigma> x) = \<sigma> (Suc x)" by (auto simp: \<sigma>_def)
      then show ?thesis by simp
    qed
    show ?case
    proof (cases "line < length F")
      case False
      with lt [of line] have "\<not> \<sigma> line < length G" by simp
      with False show ?thesis
        by (subst build_tree_loop.simps, subst (2) build_tree_loop.simps) simp
    next
      case l: True
      show ?thesis
      proof (cases "strip (F ! line) = []")
        case True
        from 1(1) [OF l refl _ F] True step
        have "build_tree_loop G (Suc (\<sigma> line)) tree_list ws = build_tree_loop F (line + 1) tree_list ws"
          by simp
        with l True lt [of line] nth [OF l] show ?thesis
          by (subst build_tree_loop.simps, subst (2) build_tree_loop.simps) simp
      next
        case False
        from build_ok(1) [of line F] l obtain c n wsc where
          be: "build_element F line = Inr (c, n, wsc)" by auto
        from insert_blank_build(1) [OF b, of xs ys line] be
        have be': "build_element G (\<sigma> line) = Inr (c, \<sigma> n, wsc)"
          by (simp add: F G_def \<sigma>_def k_def)
        from 1(2) [OF l refl _ be refl refl F] False
        have "build_tree_loop G (\<sigma> n) (tree_list @ [c]) (ws @ wsc)
            = build_tree_loop F n (tree_list @ [c]) (ws @ wsc)" by simp
        with l False be be' lt [of line] nth [OF l] show ?thesis
          by (subst build_tree_loop.simps, subst (2) build_tree_loop.simps) simp
      qed
    qed
  qed
  then show ?thesis by (simp add: G_def \<sigma>_def k_def)
qed

lemma insert_blank_build_tree:
  assumes b: "strip b = []"
  shows "build_tree (xs @ b # ys) = build_tree (xs @ ys)"
proof (cases xs)
  case Nil
  have "build_tree_loop (b # ys) 0 [] [] = build_tree_loop (b # ys) (Suc 0) [] []"
    using b by (subst build_tree_loop.simps) simp
  with insert_blank_tree_loop [OF b, of "[]" ys 0 "[]" "[]"] Nil show ?thesis
    by (simp add: build_tree_def)
next
  case (Cons x xs')
  with insert_blank_tree_loop [OF b, of xs ys 0 "[]" "[]"] show ?thesis
    by (simp add: build_tree_def)
qed

lemma remove_blanks_build_tree:
  "build_tree (filter (\<lambda>l. strip l \<noteq> []) xs @ ys) = build_tree (xs @ ys)"
proof (induction xs arbitrary: ys rule: rev_induct)
  case Nil
  show ?case by simp
next
  case (snoc x xs)
  show ?case
  proof (cases "strip x = []")
    case True
    with snoc [of ys] insert_blank_build_tree [OF True, of xs ys] show ?thesis by simp
  next
    case False
    with snoc [of "x # ys"] show ?thesis by simp
  qed
qed

subsection \<open>Visible texts\<close>

lemma dropWhile_all_iff: "(\<forall>c \<in> set (dropWhile P s). P c) \<longleftrightarrow> (\<forall>c \<in> set s. P c)"
  by (induction s) auto

lemma strip_empty_iff: "strip s = [] \<longleftrightarrow> (\<forall>c \<in> set s. isspace c)"
  by (simp add: strip_def dropWhile_eq_Nil_conv dropWhile_all_iff)

lemma strip_strip_nonempty: "strip s \<noteq> [] \<Longrightarrow> strip (strip s) \<noteq> []"
proof -
  assume ne: "strip s \<noteq> []"
  let ?d = "dropWhile isspace (rev (dropWhile isspace s))"
  from ne have d: "?d \<noteq> []" by (simp add: strip_def)
  then have "\<not> isspace (hd ?d)" by (rule hd_dropWhile)
  moreover from d have "hd ?d \<in> set (strip s)" by (simp add: strip_def)
  ultimately show ?thesis by (auto simp: strip_empty_iff)
qed

lemma strip_line_nonempty: "strip s \<noteq> [] \<Longrightarrow> strip (p @ s @ t) \<noteq> []"
  by (auto simp: strip_empty_iff)

lemma visible_children_append:
  "visible_children (xs @ ys) \<longleftrightarrow> visible_children xs \<and> visible_children ys"
proof (induction xs)
  case Nil
  show ?case by simp
next
  case (Cons x xs)
  then show ?case by (cases x) simp_all
qed

lemma visible_add_child:
  "visible_element cur \<Longrightarrow> visible_children [child] \<Longrightarrow> add_child cur child = (cur', w)
     \<Longrightarrow> visible_element cur'"
  by (cases cur) (auto simp: visible_children_append)

lemma visible_new_element: "strip command \<noteq> [] \<Longrightarrow> visible_element (new_element command)"
  by (simp add: new_element_def strip_strip_nonempty)

lemma build_visible:
  "\<forall>c n ws. build_element file line = Inr (c, n, ws) \<longrightarrow> visible_children [c]"
  "\<forall>el n ws'. visible_element cur \<longrightarrow>
     build_children file indent cur next_line ws = Inr (el, n, ws') \<longrightarrow> visible_element el"
proof (induct line and indent cur next_line ws rule: build_induct [where fl = "file"])
  case (element line)
  show ?case
  proof (intro allI impI)
    fix c n ws
    assume eq: "build_element file line = Inr (c, n, ws)"
    have l: "line < length file"
      using eq by (cases "line < length file") (simp_all add: build_element_simps)
    show "visible_children [c]"
    proof (cases "strip (file ! line) = []")
      case True
      with eq l show ?thesis by (simp add: build_element_simps)
    next
      case False
      with eq l obtain el where
        bc: "build_children file (count_indents (file ! line)) (new_element (file ! line)) (Suc line) []
               = Inr (el, n, ws)" and c: "c = Some el"
        by (auto simp: build_element_simps split: sum.splits)
      from element [OF l False] bc visible_new_element [OF False] have "visible_element el"
        by blast
      with c show ?thesis by simp
    qed
  qed
next
  case (children indent cur next_line ws)
  show ?case
  proof (intro allI impI)
    fix el n ws'
    assume pc: "visible_element cur"
      and eq: "build_children file indent cur next_line ws = Inr (el, n, ws')"
    consider (stop) "next_line = length file" | (beyond) "length file < next_line"
      | (blank) "next_line < length file" "strip (file ! next_line) = []"
      | (deeper) "next_line < length file" "strip (file ! next_line) \<noteq> []"
          "indent < count_indents (file ! next_line)"
      | (shallow) "next_line < length file" "strip (file ! next_line) \<noteq> []"
          "\<not> indent < count_indents (file ! next_line)"
      by linarith
    then show "visible_element el"
    proof cases
      case stop
      with eq pc show ?thesis by (simp add: build_children_simps)
    next
      case beyond
      with eq show ?thesis by (simp add: build_children_simps)
    next
      case blank
      with eq children(1) pc show ?thesis by (simp add: build_children_simps)
    next
      case deeper
      with eq obtain child nl wsc where
        be: "build_element file next_line = Inr (child, nl, wsc)"
        by (auto simp: build_children_simps split: sum.splits)
      obtain cur' w where ac: "add_child cur child = (cur', w)" by (cases "add_child cur child")
      from children(2) [OF deeper] be have "visible_children [child]" by blast
      from visible_add_child [OF pc this ac] have "visible_element cur'" .
      with children(3) [OF deeper be ac] eq deeper be ac show ?thesis
        by (simp add: build_children_simps)
    next
      case shallow
      with eq pc show ?thesis by (simp add: build_children_simps)
    qed
  qed
qed

lemma build_tree_loop_visible:
  "build_tree_loop file line tree_list ws = Inr (trees, ws') \<Longrightarrow> visible_children tree_list
     \<Longrightarrow> visible_children trees"
proof (induction "file" line tree_list ws rule: build_tree_loop.induct)
  case (1 fl line tree_list ws)
  note eq = "1.prems"(1) and v = "1.prems"(2)
  show ?case
  proof (cases "line < length fl")
    case False
    with eq v show ?thesis by (subst (asm) build_tree_loop.simps) simp
  next
    case l: True
    show ?thesis
    proof (cases "strip (fl ! line) = []")
      case True
      with l eq have "build_tree_loop fl (line + 1) tree_list ws = Inr (trees, ws')"
        by (subst (asm) build_tree_loop.simps) simp
      from 1(1) [OF l refl _ this v] True show ?thesis by simp
    next
      case False
      from build_ok(1) [of line fl] l obtain c n wsc where
        be: "build_element fl line = Inr (c, n, wsc)" by auto
      with l False eq have
        bl: "build_tree_loop fl n (tree_list @ [c]) (ws @ wsc) = Inr (trees, ws')"
        by (subst (asm) build_tree_loop.simps) simp
      from build_visible(1) [of fl line] be have "visible_children [c]" by blast
      with v have "visible_children (tree_list @ [c])" by (simp add: visible_children_append)
      from 1(2) [OF l refl _ be refl refl bl this] False show ?thesis by simp
    qed
  qed
qed

lemma compile_visible:
  "visible_element e \<Longrightarrow> compile e p = Inr ls \<Longrightarrow> \<forall>l \<in> set ls. strip l \<noteq> []"
  "visible_children cs \<Longrightarrow> compile_children cs p acc = Inr ls \<Longrightarrow>
     \<forall>l \<in> set acc. strip l \<noteq> [] \<Longrightarrow> \<forall>l \<in> set ls. strip l \<noteq> []"
proof (induction e p and cs p acc arbitrary: ls and ls rule: compile_compile_children.induct)
  case (1 s parent)
  then show ?case by auto
next
  case (2 s children parent)
  show ?case
  proof (cases "children = []")
    case True
    with "2.prems" strip_line_nonempty [of s parent "'' ''"] show ?thesis by auto
  next
    case False
    with "2.prems" have "compile_children children (parent @ s @ '' '') [] = Inr ls"
      "visible_children children" by (simp_all add: Let_def)
    with 2(1) [OF refl] False show ?thesis by simp
  qed
next
  case (3 next_str next_list)
  then show ?case by simp
next
  case (4 rest next_str next_list)
  then show ?case by simp
next
  case (5 child rest next_str next_list)
  from "5.prems"(1) have vc: "visible_element child" and vr: "visible_children rest" by simp_all
  from "5.prems"(2) obtain l where l: "compile child next_str = Inr l"
    and r: "compile_children rest next_str (next_list @ l) = Inr ls"
    by (auto split: sum.splits)
  from 5(1) [OF vc l] "5.prems"(3) have "\<forall>x \<in> set (next_list @ l). strip x \<noteq> []" by auto
  from 5(2) [OF l vr r this] show ?case .
qed

lemma compile_roots_visible:
  "visible_children ts \<Longrightarrow> compile_roots ts acc = Inr ls \<Longrightarrow>
     \<forall>l \<in> set acc. strip l \<noteq> [] \<Longrightarrow> \<forall>l \<in> set ls. strip l \<noteq> []"
proof (induction ts acc arbitrary: ls rule: compile_roots.induct)
  case (1 compiled_list)
  then show ?case by simp
next
  case (2 rest compiled_list)
  then show ?case by simp
next
  case (3 tree rest compiled_list)
  from "3.prems"(1) have vc: "visible_element tree" and vr: "visible_children rest" by simp_all
  from "3.prems"(2) obtain l where l: "compile tree [] = Inr l"
    and r: "compile_roots rest (compiled_list @ l) = Inr ls"
    by (auto split: sum.splits)
  from compile_visible(1) [OF vc l] "3.prems"(3)
  have "\<forall>x \<in> set (compiled_list @ l). strip x \<noteq> []" by auto
  from 3(1) [OF l vr r this] show ?case .
qed

section \<open>Emission of single elements\<close>

text \<open>
  Claim C1. A node without children, compiled under the prefix \<open>p\<close>, gives the single
  line \<open>p\<close> followed by the node's text. The code returns \<^verbatim>\<open>[next_str]\<close>, the
  string handed to children, which ends in the separating space: the root node
  \<^verbatim>\<open>say hi\<close> gives the line \<^verbatim>\<open>say hi\<close> followed by one space.
\<close>

theorem leaf_compile_trailing_space:
  "compile (Node ''say hi'' []) [] = Inr [''say hi '']
   \<and> compile (Node ''say hi'' []) [] \<noteq> Inr [''say hi'']
   \<and> compile (Node s []) p = Inr [p @ s @ '' '']"
  by simp


text \<open>
  Claim C6. A marker compiles to its own string alone, whatever the prefix. The builder
  makes the marker of a comment line from the stripped line, so the output of a comment
  line is its stripped text.
\<close>

theorem marker_output_verbatim:
  "compile (Marker s) p = Inr [s]
   \<and> compile_children (Some (Marker s) # rest) p acc = compile_children rest p (acc @ [s])
   \<and> (line < length file \<and> strip (file ! line) \<noteq> [] \<and> startswith (strip (file ! line)) ''#''
        \<longrightarrow> (\<exists>n ws. build_element file line = Inr (Some (Marker (strip (file ! line))), n, ws)))"
proof (intro conjI impI)
  assume a: "line < length file \<and> strip (file ! line) \<noteq> [] \<and> startswith (strip (file ! line)) ''#''"
  then have ne: "new_element (file ! line) = Marker (strip (file ! line))"
    by (simp add: new_element_def)
  from a build_ok(1) [of line "file"] obtain c n ws where
    be: "build_element file line = Inr (c, n, ws)" by auto
  with a ne obtain el where
    bc: "build_children file (count_indents (file ! line)) (Marker (strip (file ! line))) (Suc line) []
           = Inr (el, n, ws)" and c: "c = Some el"
    by (auto simp: build_element_simps split: sum.splits)
  from build_children_marker [OF bc] c be
  show "\<exists>n ws. build_element file line = Inr (Some (Marker (strip (file ! line))), n, ws)"
    by auto
qed simp_all

theorem marker_output_verbatim_witness:
  "1 < length [''say hi'', ''  # note''] \<and> strip ([''say hi'', ''  # note''] ! 1) = ''# note''
   \<and> startswith ''# note'' ''#''
   \<and> (\<exists>n ws. build_element [''say hi'', ''  # note''] 1 = Inr (Some (Marker ''# note''), n, ws))
   \<and> compile (Marker ''# note'') ''say hi '' = Inr [''# note'']"
  using marker_output_verbatim [of "''# note''" "''say hi ''" "[]" "[]" 1 "[''say hi'', ''  # note'']"]
  by (simp add: strip_def isspace_def)

section \<open>Line classification\<close>

text \<open>
  Claim C9. The indentation depth of a line is the length of its longest prefix of tabs
  and spaces, each character counting one (one tab and two spaces give 3). The builder
  takes a line for blank when nothing is left after stripping, for a comment when the
  stripped line starts with \<^verbatim>\<open>#\<close>, and for a command otherwise; on a file of that one
  line it returns no element, a marker, or a node, and never an error.
\<close>

theorem line_classification:
  "count_indents s = length (takeWhile (\<lambda>c. c = CHR 0x09 \<or> c = CHR '' '') s)
   \<and> count_indents (CHR 0x09 # ''  x'') = 3
   \<and> build_element [s] 0 =
       (if strip s = [] then Inr (None, 0, [])
        else if (\<exists>r. strip s = CHR ''#'' # r) then Inr (Some (Marker (strip s)), 1, [])
        else Inr (Some (Node (strip s) []), 1, []))"
  by (simp add: count_indents_def count_indents_loop_takeWhile build_element_simps
      build_children_simps new_element_def startswith_hash)

section \<open>The worked example\<close>

text \<open>
  Claim C2. The six-line example of the specification builds one root with the two
  subtrees of \<^verbatim>\<open>execute if b\<close> and \<^verbatim>\<open>if c\<close>, and compiles to three lines in source
  order. Each line is the concatenation of the texts on the path to a leaf, separated by
  single spaces, and, as for every leaf (claim C1), ends in one more space.
\<close>

theorem example_six_lines:
  "build_tree [''execute if a'', CHR 0x09 # ''execute if b'',
               CHR 0x09 # CHR 0x09 # ''run cmd1'', CHR 0x09 # CHR 0x09 # ''run cmd2'',
               CHR 0x09 # ''if c'', CHR 0x09 # CHR 0x09 # ''run cmd3'']
     = Inr ([Some (Node ''execute if a''
                [Some (Node ''execute if b'' [Some (Node ''run cmd1'' []), Some (Node ''run cmd2'' [])]),
                 Some (Node ''if c'' [Some (Node ''run cmd3'' [])])])], [])
   \<and> compile_roots [Some (Node ''execute if a''
                [Some (Node ''execute if b'' [Some (Node ''run cmd1'' []), Some (Node ''run cmd2'' [])]),
                 Some (Node ''if c'' [Some (Node ''run cmd3'' [])])])] []
     = Inr [''execute if a execute if b run cmd1 '',
            ''execute if a execute if b run cmd2 '',
            ''execute if a if c run cmd3 '']
   \<and> compile_tree_list [Some (Node ''execute if a''
                [Some (Node ''execute if b'' [Some (Node ''run cmd1'' []), Some (Node ''run cmd2'' [])]),
                 Some (Node ''if c'' [Some (Node ''run cmd3'' [])])])]
     = Inr (''execute if a execute if b run cmd1 '' @ [CHR 0x0A]
            @ ''execute if a execute if b run cmd2 '' @ [CHR 0x0A]
            @ ''execute if a if c run cmd3 '' @ [CHR 0x0A])"
  by code_simp

section \<open>Termination and absence of errors\<close>

text \<open>
  Claim C7. \<open>build_element\<close>, \<open>build_children\<close> and \<open>build_tree_loop\<close> are total
  functions: their termination proofs above rest on the cursor moving forward. Called on
  a non-blank line inside the file, the element builder returns an index strictly beyond
  that line and at most the length of the file, and for every file the tree builder and
  the compiler return a result, never an error.
\<close>

theorem builder_terminates:
  "(line < length file \<and> strip (file ! line) \<noteq> [] \<longrightarrow>
      (\<exists>c n ws. build_element file line = Inr (c, n, ws) \<and> line < n \<and> n \<le> length file))
   \<and> (\<exists>trees ws out. build_tree file = Inr (trees, ws) \<and> compile_tree_list trees = Inr out)"
proof (intro conjI impI)
  assume a: "line < length file \<and> strip (file ! line) \<noteq> []"
  with build_ok(1) [of line "file"] obtain c n ws where
    be: "build_element file line = Inr (c, n, ws)" "n \<le> length file" by auto
  with build_element_advance [OF be(1)] a
  show "\<exists>c n ws. build_element file line = Inr (c, n, ws) \<and> line < n \<and> n \<le> length file"
    by auto
next
  from build_tree_ok [of "file"] obtain trees ws where
    bt: "build_tree file = Inr (trees, ws)" "proper_children trees" by blast
  from compile_roots_ok [OF bt(2), of "[]"] obtain ls where "compile_roots trees [] = Inr ls"
    by auto
  then have "compile_tree_list trees = Inr (join_lines ls [])"
    by (simp add: compile_tree_list_def)
  with bt show "\<exists>trees ws out. build_tree file = Inr (trees, ws) \<and> compile_tree_list trees = Inr out"
    by blast
qed

theorem builder_terminates_witness:
  "(0 < length [''a'', '' b''] \<and> strip ([''a'', '' b''] ! 0) \<noteq> [])
   \<and> (\<exists>c n ws. build_element [''a'', '' b''] 0 = Inr (c, n, ws) \<and> 0 < n \<and> n \<le> length [''a'', '' b''])
   \<and> (\<exists>trees ws out. build_tree [''a'', '' b''] = Inr (trees, ws)
         \<and> compile_tree_list trees = Inr out)"
  using builder_terminates [of 0 "[''a'', '' b'']"]
  by (simp add: strip_def isspace_def)

text \<open>
  Claim C10. The return of \<^verbatim>\<open>None\<close> for a blank line is never taken on behalf of the
  tree builder: both loops skip blank lines before they call the element builder. So the
  roots returned by \<open>build_tree\<close>, and all children below them, are markers and nodes;
  the element builder returns an element on every non-blank line, and \<^verbatim>\<open>None\<close> only on
  a blank one.
\<close>

theorem built_elements_are_real:
  "(\<exists>trees ws. build_tree file = Inr (trees, ws) \<and> proper_children trees)
   \<and> (line < length file \<and> strip (file ! line) \<noteq> [] \<longrightarrow>
        (\<exists>e n ws. build_element file line = Inr (Some e, n, ws) \<and> proper_element e))
   \<and> (line < length file \<and> strip (file ! line) = [] \<longrightarrow>
        build_element file line = Inr (None, line, []))"
proof (intro conjI impI)
  show "\<exists>trees ws. build_tree file = Inr (trees, ws) \<and> proper_children trees"
    by (rule build_tree_ok)
next
  assume a: "line < length file \<and> strip (file ! line) \<noteq> []"
  with build_ok(1) [of line "file"] obtain c n ws where
    be: "build_element file line = Inr (c, n, ws)" by auto
  with build_proper(1) [of "file" line] a obtain e where "c = Some e" "proper_element e" by blast
  with be show "\<exists>e n ws. build_element file line = Inr (Some e, n, ws) \<and> proper_element e"
    by auto
next
  assume "line < length file \<and> strip (file ! line) = []"
  then show "build_element file line = Inr (None, line, [])"
    by (simp add: build_element_simps)
qed

theorem built_elements_are_real_witness:
  "(\<exists>trees ws. build_tree [''a'', '''', '' b'', '' ''] = Inr (trees, ws) \<and> proper_children trees)
   \<and> (2 < length [''a'', '''', '' b'', '' ''] \<and> strip ([''a'', '''', '' b'', '' ''] ! 2) \<noteq> [])
   \<and> (\<exists>e n ws. build_element [''a'', '''', '' b'', '' ''] 2 = Inr (Some e, n, ws)
          \<and> proper_element e)
   \<and> strip ([''a'', '''', '' b'', '' ''] ! 3) = []"
  using built_elements_are_real [of "[''a'', '''', '' b'', '' '']" 2]
  by (simp add: strip_def isspace_def)

section \<open>Number of output lines\<close>

text \<open>
  Claim C3. Compiling a list of trees without \<^verbatim>\<open>None\<close> children gives as many lines as
  the trees have markers and childless nodes; a node with children adds no line of its own.
  The trees of \<open>build_tree\<close> are of that kind, for every file. The output text is the
  lines, each followed by a newline.
\<close>

theorem output_line_count:
  "(proper_children trees \<longrightarrow>
      (\<exists>lines. compile_roots trees [] = Inr lines \<and> length lines = leaf_count_list trees
         \<and> compile_tree_list trees = Inr (concat (map (\<lambda>l. l @ [CHR 0x0A]) lines))))
   \<and> (\<exists>built ws lines. build_tree file = Inr (built, ws) \<and> compile_roots built [] = Inr lines
         \<and> length lines = leaf_count_list built)"
proof -
  have gen: "\<exists>lines. compile_roots ts [] = Inr lines \<and> length lines = leaf_count_list ts
         \<and> compile_tree_list ts = Inr (concat (map (\<lambda>l. l @ [CHR 0x0A]) lines))"
    if "proper_children ts" for ts
  proof -
    from compile_roots_ok [OF that, of "[]"] obtain ls where
      ls: "compile_roots ts [] = Inr ls" "length ls = leaf_count_list ts" by auto
    then show ?thesis by (simp add: compile_tree_list_def join_lines_concat)
  qed
  from build_tree_ok [of "file"] obtain built ws where
    bt: "build_tree file = Inr (built, ws)" "proper_children built" by blast
  from gen [OF bt(2)] bt(1)
  have "\<exists>built ws lines. build_tree file = Inr (built, ws) \<and> compile_roots built [] = Inr lines
         \<and> length lines = leaf_count_list built" by blast
  with gen show ?thesis by blast
qed

theorem output_line_count_witness:
  "proper_children [Some (Node ''a'' [Some (Node ''b'' []), Some (Marker ''# c'')]), Some (Node ''d'' [])]
   \<and> (\<exists>lines. compile_roots [Some (Node ''a'' [Some (Node ''b'' []), Some (Marker ''# c'')]),
                               Some (Node ''d'' [])] [] = Inr lines
         \<and> length lines = 3)"
  using output_line_count [of "[Some (Node ''a'' [Some (Node ''b'' []), Some (Marker ''# c'')]),
                               Some (Node ''d'' [])]" "[]"]
  by auto

section \<open>Parents and children\<close>

text \<open>
  Claim C5, as stated, also covers a deeper line that follows a comment line. There the
  built child is handed to \<^verbatim>\<open>marker.add_child\<close>, which keeps nothing: the comment
  \<^verbatim>\<open># c\<close> followed by the tab-indented \<^verbatim>\<open>say hi\<close> builds the marker alone, and the
  deeper line is the child of no element.
\<close>

theorem deeper_line_after_comment_counterexample:
  "strip ''# c'' \<noteq> [] \<and> strip (CHR 0x09 # ''say hi'') \<noteq> []
   \<and> count_indents ''# c'' < count_indents (CHR 0x09 # ''say hi'')
   \<and> build_element [''# c'', CHR 0x09 # ''say hi''] 0
       = Inr (Some (Marker ''# c''), 2, [''Cannot add child to comment.''])
   \<and> build_element [''# c'', CHR 0x09 # ''say hi''] 1 = Inr (Some (Node ''say hi'' []), 2, [])
   \<and> build_tree [''# c'', CHR 0x09 # ''say hi'']
       = Inr ([Some (Marker ''# c'')], [''Cannot add child to comment.''])"
  by code_simp

text \<open>
  Claim C5, amended. Every child of a node built for a line comes from a non-blank line
  after it whose indentation depth is strictly greater than the depth of the node's line,
  and is the element built for that line. Moreover, when a command line (not a comment)
  is followed, after blank lines only, by a non-blank line of strictly greater depth, by
  one level or by more, the element built for the deeper line is the first child of the
  node built for the command line.
\<close>

theorem children_are_deeper_lines:
  "(build_element file line = Inr (Some (Node s cs), n, ws) \<longrightarrow>
      s = strip (file ! line)
      \<and> (\<forall>c \<in> set cs. \<exists>j nj wj. line < j \<and> j < n \<and> strip (file ! j) \<noteq> []
            \<and> count_indents (file ! line) < count_indents (file ! j)
            \<and> build_element file j = Inr (c, nj, wj)))
   \<and> (i < j \<and> j < length file \<and> strip (file ! i) \<noteq> []
        \<and> \<not> startswith (strip (file ! i)) ''#''
        \<and> (\<forall>k. i < k \<and> k < j \<longrightarrow> strip (file ! k) = [])
        \<and> strip (file ! j) \<noteq> [] \<and> count_indents (file ! i) < count_indents (file ! j) \<longrightarrow>
        (\<exists>c rest n' ws' nj wj.
            build_element file i = Inr (Some (Node (strip (file ! i)) (c # rest)), n', ws')
            \<and> build_element file j = Inr (c, nj, wj)))"
proof (intro conjI impI)
  assume eq: "build_element file line = Inr (Some (Node s cs), n, ws)"
  have l: "line < length file"
    using eq by (cases "line < length file") (simp_all add: build_element_simps)
  have nb: "strip (file ! line) \<noteq> []"
    using eq l by (cases "strip (file ! line) = []") (simp_all add: build_element_simps)
  from eq l nb have
    bc: "build_children file (count_indents (file ! line)) (new_element (file ! line)) (Suc line) []
           = Inr (Node s cs, n, ws)"
    by (auto simp: build_element_simps split: sum.splits)
  have ne: "new_element (file ! line) = Node (strip (file ! line)) []"
  proof (cases "startswith (strip (file ! line)) ''#''")
    case True
    with bc have "build_children file (count_indents (file ! line)) (Marker (strip (file ! line)))
        (Suc line) [] = Inr (Node s cs, n, ws)"
      by (simp add: new_element_cases)
    from build_children_marker [OF this] show ?thesis by simp
  next
    case False
    then show ?thesis by (simp add: new_element_cases)
  qed
  from build_children_node [of "Node (strip (file ! line)) []" "file"] bc ne
  obtain cs' where cs': "Node s cs = Node (strip (file ! line)) ([] @ cs')"
    "\<forall>c \<in> set cs'. \<exists>j nj wj. Suc line \<le> j \<and> j < n \<and> strip (file ! j) \<noteq> []
       \<and> count_indents (file ! line) < count_indents (file ! j)
       \<and> build_element file j = Inr (c, nj, wj)"
    by (metis (no_types, lifting))
  from cs'(1) show "s = strip (file ! line)" by simp
  from cs' show "\<forall>c \<in> set cs. \<exists>j nj wj. line < j \<and> j < n \<and> strip (file ! j) \<noteq> []
       \<and> count_indents (file ! line) < count_indents (file ! j)
       \<and> build_element file j = Inr (c, nj, wj)"
    by (simp add: Suc_le_eq)
next
  assume a: "i < j \<and> j < length file \<and> strip (file ! i) \<noteq> []
        \<and> \<not> startswith (strip (file ! i)) ''#''
        \<and> (\<forall>k. i < k \<and> k < j \<longrightarrow> strip (file ! k) = [])
        \<and> strip (file ! j) \<noteq> [] \<and> count_indents (file ! i) < count_indents (file ! j)"
  let ?s = "strip (file ! i)" and ?d = "count_indents (file ! i)"
  from a have ne: "new_element (file ! i) = Node ?s []" by (simp add: new_element_cases)
  from a build_ok(1) [of i "file"] obtain ci n' ws' where
    bi: "build_element file i = Inr (ci, n', ws')" by auto
  with a ne have
    b1: "build_children file ?d (Node ?s []) (Suc i) [] = Inr (the ci, n', ws')" and ci: "ci = Some (the ci)"
    by (auto simp: build_element_simps split: sum.splits)
  have skip: "build_children file ?d (Node ?s []) (Suc i) [] = build_children file ?d (Node ?s []) j []"
    using a by (intro build_children_skip_blank) auto
  from a build_ok(1) [of j "file"] obtain c nj wj where
    bj: "build_element file j = Inr (c, nj, wj)" by auto
  from a bj have
    "build_children file ?d (Node ?s []) j [] = build_children file ?d (Node ?s [c]) nj ([] @ wj @ [])"
    by (simp add: build_children_simps)
  with b1 skip have b2: "build_children file ?d (Node ?s [c]) nj ([] @ wj @ []) = Inr (the ci, n', ws')"
    by simp
  from build_children_node [of "Node ?s [c]" "file"] b2 obtain cs' where
    "the ci = Node ?s ([c] @ cs')" by (metis (no_types, lifting))
  with ci bi bj show "\<exists>c rest n' ws' nj wj.
            build_element file i = Inr (Some (Node (strip (file ! i)) (c # rest)), n', ws')
            \<and> build_element file j = Inr (c, nj, wj)"
    by (metis append_Cons append_Nil)
qed

theorem children_are_deeper_lines_witness:
  "build_element [''a'', '''', ''   b''] 0 = Inr (Some (Node ''a'' [Some (Node ''b'' [])]), 3, [])
   \<and> (\<exists>j nj wj. 0 < j \<and> j < 3 \<and> strip ([''a'', '''', ''   b''] ! j) \<noteq> []
         \<and> count_indents ([''a'', '''', ''   b''] ! 0) < count_indents ([''a'', '''', ''   b''] ! j)
         \<and> build_element [''a'', '''', ''   b''] j = Inr (Some (Node ''b'' []), nj, wj))
   \<and> (\<exists>c rest n' ws' nj wj.
         build_element [''a'', '''', ''   b''] 0 = Inr (Some (Node ''a'' (c # rest)), n', ws')
         \<and> build_element [''a'', '''', ''   b''] 2 = Inr (c, nj, wj))"
proof -
  let ?F = "[''a'', '''', ''   b'']"
  have e: "build_element ?F 0 = Inr (Some (Node ''a'' [Some (Node ''b'' [])]), 3, [])"
    by code_simp
  have s: "strip (?F ! 0) = ''a''" "strip (?F ! 1) = []" "strip (?F ! 2) = ''b''"
    "count_indents (?F ! 0) = 0" "count_indents (?F ! 2) = 3"
    by (simp_all add: strip_def isspace_def count_indents_def indent_chars_def)
  have k: "\<forall>k. 0 < k \<and> k < 2 \<longrightarrow> strip (?F ! k) = []"
  proof (intro allI impI)
    fix k :: nat
    assume "0 < k \<and> k < 2"
    then have "k = 1" by simp
    with s(2) show "strip (?F ! k) = []" by simp
  qed
  have h: "(0::nat) < 2 \<and> 2 < length ?F \<and> strip (?F ! 0) \<noteq> []
        \<and> \<not> startswith (strip (?F ! 0)) ''#''
        \<and> (\<forall>k. 0 < k \<and> k < 2 \<longrightarrow> strip (?F ! k) = [])
        \<and> strip (?F ! 2) \<noteq> [] \<and> count_indents (?F ! 0) < count_indents (?F ! 2)"
    using k s by simp
  note t = children_are_deeper_lines [of ?F 0 "''a''" "[Some (Node ''b'' [])]" 3 "[]" 0 2]
  from t e have "\<exists>j nj wj. 0 < j \<and> j < 3 \<and> strip (?F ! j) \<noteq> []
         \<and> count_indents (?F ! 0) < count_indents (?F ! j)
         \<and> build_element ?F j = Inr (Some (Node ''b'' []), nj, wj)"
    by simp
  moreover from t h s(1) have "\<exists>c rest n' ws' nj wj.
         build_element ?F 0 = Inr (Some (Node ''a'' (c # rest)), n', ws')
         \<and> build_element ?F 2 = Inr (c, nj, wj)"
    by (metis (no_types, lifting))
  ultimately show ?thesis using e by blast
qed


section \<open>Children of comments\<close>

text \<open>
  Claim C4. When a comment line is followed, after blank lines only, by a non-blank line
  of strictly greater depth, the element built for the comment line is the marker of its
  stripped text and nothing else: the deeper line is consumed (the returned index lies
  beyond it) and the warning of \<^verbatim>\<open>marker.add_child\<close> is issued. The warning is among
  those of the whole run of \<open>build_tree\<close>, which returns its trees, and they compile
  without error.
\<close>

theorem child_of_comment_is_dropped:
  "i < j \<and> j < length file \<and> strip (file ! i) \<noteq> []
     \<and> startswith (strip (file ! i)) ''#''
     \<and> (\<forall>k. i < k \<and> k < j \<longrightarrow> strip (file ! k) = [])
     \<and> strip (file ! j) \<noteq> [] \<and> count_indents (file ! i) < count_indents (file ! j) \<longrightarrow>
   (\<exists>n wi trees ws out.
       build_element file i = Inr (Some (Marker (strip (file ! i))), n, wi) \<and> j < n
       \<and> ''Cannot add child to comment.'' \<in> set wi
       \<and> build_tree file = Inr (trees, ws) \<and> ''Cannot add child to comment.'' \<in> set ws
       \<and> compile_tree_list trees = Inr out)"
proof
  assume a: "i < j \<and> j < length file \<and> strip (file ! i) \<noteq> []
     \<and> startswith (strip (file ! i)) ''#''
     \<and> (\<forall>k. i < k \<and> k < j \<longrightarrow> strip (file ! k) = [])
     \<and> strip (file ! j) \<noteq> [] \<and> count_indents (file ! i) < count_indents (file ! j)"
  let ?s = "strip (file ! i)" and ?d = "count_indents (file ! i)"
  let ?w = "''Cannot add child to comment.''"
  from a have ne: "new_element (file ! i) = Marker ?s" by (simp add: new_element_cases)
  from a build_ok(1) [of i "file"] obtain ci n wi where
    bi: "build_element file i = Inr (ci, n, wi)" by auto
  with a ne obtain el where
    b1: "build_children file ?d (Marker ?s) (Suc i) [] = Inr (el, n, wi)" and ci: "ci = Some el"
    by (auto simp: build_element_simps split: sum.splits)
  from build_children_marker [OF b1] ci have ci': "ci = Some (Marker ?s)" by simp
  have skip: "build_children file ?d (Marker ?s) (Suc i) [] = build_children file ?d (Marker ?s) j []"
    using a by (intro build_children_skip_blank) auto
  from a build_ok(1) [of j "file"] obtain c nj wj where
    bj: "build_element file j = Inr (c, nj, wj)" by auto
  from a bj have
    "build_children file ?d (Marker ?s) j [] = build_children file ?d (Marker ?s) nj ([] @ wj @ [?w])"
    by (simp add: build_children_simps)
  with b1 skip have b2: "build_children file ?d (Marker ?s) nj ([] @ wj @ [?w]) = Inr (el, n, wi)"
    by simp
  from build_children_warnings_mono [OF b2] have w: "?w \<in> set wi" by simp
  from build_element_advance [OF bj] a build_children_advance [OF b2] have jn: "j < n" by simp
  from build_tree_ok [of "file"] obtain trees ws where
    bt: "build_tree file = Inr (trees, ws)" "proper_children trees" by blast
  from bt(1) have "build_tree_loop file 0 [] [] = Inr (trees, ws)" by (simp add: build_tree_def)
  from build_tree_loop_visits [OF this, of i ci n wi] a bi w have ws: "?w \<in> set ws" by auto
  from compile_tree_list_ok [OF bt(2)] obtain out where "compile_tree_list trees = Inr out" ..
  with bi ci' jn w bt(1) ws show "\<exists>n wi trees ws out.
       build_element file i = Inr (Some (Marker (strip (file ! i))), n, wi) \<and> j < n
       \<and> ''Cannot add child to comment.'' \<in> set wi
       \<and> build_tree file = Inr (trees, ws) \<and> ''Cannot add child to comment.'' \<in> set ws
       \<and> compile_tree_list trees = Inr out"
    by blast
qed

theorem child_of_comment_is_dropped_witness:
  "strip ([''say a'', '' # c'', '''', ''   say hi''] ! 1) = ''# c''
   \<and> strip ([''say a'', '' # c'', '''', ''   say hi''] ! 2) = []
   \<and> strip ([''say a'', '' # c'', '''', ''   say hi''] ! 3) = ''say hi''
   \<and> count_indents ([''say a'', '' # c'', '''', ''   say hi''] ! 1)
        < count_indents ([''say a'', '' # c'', '''', ''   say hi''] ! 3)
   \<and> (\<exists>n wi trees ws out.
       build_element [''say a'', '' # c'', '''', ''   say hi''] 1 = Inr (Some (Marker ''# c''), n, wi)
       \<and> 3 < n \<and> ''Cannot add child to comment.'' \<in> set wi
       \<and> build_tree [''say a'', '' # c'', '''', ''   say hi''] = Inr (trees, ws)
       \<and> ''Cannot add child to comment.'' \<in> set ws
       \<and> compile_tree_list trees = Inr out)"
proof -
  let ?F = "[''say a'', '' # c'', '''', ''   say hi'']"
  have s: "strip (?F ! 1) = ''# c''" "strip (?F ! 2) = []" "strip (?F ! 3) = ''say hi''"
    "count_indents (?F ! 1) = 1" "count_indents (?F ! 3) = 3"
    by (simp_all add: strip_def isspace_def count_indents_def indent_chars_def)
  have k: "\<forall>k. 1 < k \<and> k < 3 \<longrightarrow> strip (?F ! k) = []"
  proof (intro allI impI)
    fix k :: nat
    assume "1 < k \<and> k < 3"
    then have "k = 2" by simp
    with s(2) show "strip (?F ! k) = []" by simp
  qed
  have h: "(1::nat) < 3 \<and> 3 < length ?F \<and> strip (?F ! 1) \<noteq> []
     \<and> startswith (strip (?F ! 1)) ''#''
     \<and> (\<forall>k. 1 < k \<and> k < 3 \<longrightarrow> strip (?F ! k) = [])
     \<and> strip (?F ! 3) \<noteq> [] \<and> count_indents (?F ! 1) < count_indents (?F ! 3)"
    using k s by simp
  from child_of_comment_is_dropped [of 1 3 ?F] h s(1)
  have "\<exists>n wi trees ws out.
       build_element ?F 1 = Inr (Some (Marker ''# c''), n, wi)
       \<and> 3 < n \<and> ''Cannot add child to comment.'' \<in> set wi
       \<and> build_tree ?F = Inr (trees, ws)
       \<and> ''Cannot add child to comment.'' \<in> set ws
       \<and> compile_tree_list trees = Inr out"
    by (metis (no_types, lifting))
  with s show ?thesis by simp
qed

section \<open>Blank lines\<close>

text \<open>
  Claim C8. Inserting a blank line (one that is empty after stripping) at any place of a
  file changes neither the trees and warnings of \<open>build_tree\<close> nor the compiled text;
  read from right to left the same equation covers removal, and removing all blank lines
  at once changes nothing either. No line of the compiled list is blank.
\<close>

theorem blank_lines_do_not_matter:
  "(strip b = [] \<longrightarrow>
      build_tree (xs @ b # ys) = build_tree (xs @ ys)
      \<and> compile_lines (xs @ b # ys) = compile_lines (xs @ ys))
   \<and> build_tree (filter (\<lambda>l. strip l \<noteq> []) file) = build_tree file
   \<and> compile_lines (filter (\<lambda>l. strip l \<noteq> []) file) = compile_lines file
   \<and> (\<exists>built ws lines. build_tree file = Inr (built, ws) \<and> compile_roots built [] = Inr lines
         \<and> (\<forall>l \<in> set lines. strip l \<noteq> []))"
proof (intro conjI impI)
  assume b: "strip b = []"
  show "build_tree (xs @ b # ys) = build_tree (xs @ ys)"
    by (rule insert_blank_build_tree [OF b])
  then show "compile_lines (xs @ b # ys) = compile_lines (xs @ ys)"
    by (simp add: compile_lines_def)
next
  show r: "build_tree (filter (\<lambda>l. strip l \<noteq> []) file) = build_tree file"
    using remove_blanks_build_tree [of "file" "[]"] by simp
  then show "compile_lines (filter (\<lambda>l. strip l \<noteq> []) file) = compile_lines file"
    by (simp add: compile_lines_def)
next
  from build_tree_ok [of "file"] obtain built ws where
    bt: "build_tree file = Inr (built, ws)" "proper_children built" by blast
  from compile_roots_ok [OF bt(2), of "[]"] obtain lines where
    cr: "compile_roots built [] = Inr lines" by auto
  from bt(1) have "build_tree_loop file 0 [] [] = Inr (built, ws)" by (simp add: build_tree_def)
  from build_tree_loop_visible [OF this] have "visible_children built" by simp
  from compile_roots_visible [OF this cr] have "\<forall>l \<in> set lines. strip l \<noteq> []" by simp
  with bt(1) cr show "\<exists>built ws lines. build_tree file = Inr (built, ws)
      \<and> compile_roots built [] = Inr lines \<and> (\<forall>l \<in> set lines. strip l \<noteq> [])"
    by blast
qed

theorem blank_lines_do_not_matter_witness:
  "strip ''  '' = []
   \<and> build_tree ([''a''] @ ''  '' # ['' b'', '''']) = build_tree ([''a''] @ ['' b'', ''''])
   \<and> compile_lines ([''a''] @ ''  '' # ['' b'', '''']) = Inr (''a b '' @ [CHR 0x0A])
   \<and> compile_lines [''a'', '' b''] = Inr (''a b '' @ [CHR 0x0A])"
proof -
  have s: "strip ''  '' = []" by (simp add: strip_def isspace_def)
  have f: "filter (\<lambda>l. strip l \<noteq> []) ([''a''] @ ['' b'', '''']) = [''a'', '' b'']"
    by (simp add: strip_def isspace_def)
  have e: "compile_lines [''a'', '' b''] = Inr (''a b '' @ [CHR 0x0A])" by code_simp
  from blank_lines_do_not_matter [of "''  ''" "[''a'']" "['' b'', '''']" "[''a''] @ ['' b'', '''']"]
    s f e
  show ?thesis by simp
qed

end
